theory Spec2Isabelle
  imports Main
begin

section \<open>Strings of the program\<close>

text \<open>
  A Python \<open>str\<close> is a sequence of code points. The development reads a HOL \<open>char\<close>
  as the code point \<open>of_char c\<close>, so a \<open>string\<close> is a Python string over the code
  points U+0000 .. U+00FF. On that range the character classes used by the program are
  finite tables, written out below from the Python documentation:
  \<^item> the pattern \<open>\d\<close> of \<open>re\<close> matches the decimal digits (category Nd): \<open>0\<close> .. \<open>9\<close>;
  \<^item> \<open>str.isdigit\<close> accepts, besides these, the superscript digits U+00B2, U+00B3 and
    U+00B9 (Numeric_Type=Digit);
  \<^item> \<open>int\<close> accepts only decimal digits and raises \<open>ValueError\<close> on anything else;
  \<^item> \<open>str.lower\<close> maps \<open>A\<close> .. \<open>Z\<close> and U+00C0 .. U+00DE (U+00D7 apart) 32 places up;
  \<^item> \<open>str.strip\<close> and \<open>str.split\<close> without argument treat as whitespace U+0009 .. U+000D,
    U+001C .. U+0020, U+0085 and U+00A0.
\<close>

datatype py_error = ValueError | TypeError

definition re_digit :: "char \<Rightarrow> bool" where
  "re_digit c \<longleftrightarrow> 48 \<le> (of_char c :: nat) \<and> (of_char c :: nat) \<le> 57"

definition isdigit_char :: "char \<Rightarrow> bool" where
  "isdigit_char c \<longleftrightarrow> re_digit c \<or> (of_char c :: nat) \<in> {178, 179, 185}"

definition isdigit :: "string \<Rightarrow> bool" where
  "isdigit t \<longleftrightarrow> t \<noteq> [] \<and> list_all isdigit_char t"

definition lower_char :: "char \<Rightarrow> char" where
  "lower_char c =
     (let n = (of_char c :: nat)
      in if (65 \<le> n \<and> n \<le> 90) \<or> (192 \<le> n \<and> n \<le> 222 \<and> n \<noteq> 215)
         then char_of (n + 32) else c)"

definition lower :: "string \<Rightarrow> string" where
  "lower t = map lower_char t"

definition isspace_char :: "char \<Rightarrow> bool" where
  "isspace_char c \<longleftrightarrow>
     (let n = (of_char c :: nat)
      in (9 \<le> n \<and> n \<le> 13) \<or> (28 \<le> n \<and> n \<le> 32) \<or> n = 133 \<or> n = 160)"

definition strip :: "string \<Rightarrow> string" where
  "strip u = rev (dropWhile isspace_char (rev (dropWhile isspace_char u)))"

text \<open>\<open>int(t)\<close> on a string of decimal digits; the value is accumulated left to right.\<close>

fun digits_value :: "nat \<Rightarrow> string \<Rightarrow> nat" where
  "digits_value acc [] = acc"
| "digits_value acc (c # cs) = digits_value (10 * acc + (of_char c - 48)) cs"

definition py_int :: "string \<Rightarrow> py_error + int" where
  "py_int t = (if t \<noteq> [] \<and> list_all re_digit t then Inr (int (digits_value 0 t))
               else Inl ValueError)"

section \<open>The natural-sort key\<close>

text \<open>
  \<open>re.split(r"(\d+)", s)\<close>: the text before the first run of digits, then alternately a
  maximal run of digits and the text up to the next run. The list has odd length; the
  first and the last text may be empty.
\<close>

function re_split_digits :: "string \<Rightarrow> string list" where
  "re_split_digits s =
     (let pre = takeWhile (\<lambda>c. \<not> re_digit c) s;
          rest = dropWhile (\<lambda>c. \<not> re_digit c) s
      in if rest = [] then [pre]
         else pre # takeWhile re_digit rest # re_split_digits (dropWhile re_digit rest))"
  by pat_completeness auto
termination
proof (relation "measure length")
  show "wf (measure length)" by simp
next
  fix s rest :: string
  assume r: "rest = dropWhile (\<lambda>c. \<not> re_digit c) s" and ne: "rest \<noteq> []"
  from ne obtain c cs where rc: "rest = c # cs" by (cases rest) auto
  from r rc have "dropWhile (\<lambda>c. \<not> re_digit c) s = c # cs" by simp
  then have "re_digit c" by (simp add: dropWhile_eq_Cons_conv)
  then have "length (dropWhile re_digit rest) \<le> length cs"
    by (simp add: rc length_dropWhile_le)
  moreover have "length rest \<le> length s" by (simp add: r length_dropWhile_le)
  ultimately show "(dropWhile re_digit rest, s) \<in> measure length"
    by (simp add: rc)
qed

declare re_split_digits.simps [simp del]

datatype key_elem = KInt int | KStr string

text \<open>\<open>int(t) if t.isdigit() else t.lower()\<close>, for one piece of the split.\<close>

definition key_of_piece :: "string \<Rightarrow> py_error + key_elem" where
  "key_of_piece t =
     (if isdigit t then (case py_int t of Inl e \<Rightarrow> Inl e | Inr n \<Rightarrow> Inr (KInt n))
      else Inr (KStr (lower t)))"

text \<open>The list comprehension: pieces are converted left to right, the first raise ends it.\<close>

fun key_of_pieces :: "string list \<Rightarrow> py_error + key_elem list" where
  "key_of_pieces [] = Inr []"
| "key_of_pieces (t # ts) =
     (case key_of_piece t of
        Inl e \<Rightarrow> Inl e
      | Inr k \<Rightarrow> (case key_of_pieces ts of Inl e \<Rightarrow> Inl e | Inr ks \<Rightarrow> Inr (k # ks)))"

definition natural_key :: "string \<Rightarrow> py_error + key_elem list" where
  "natural_key s = key_of_pieces (re_split_digits s)"

section \<open>Comparing keys and sorting\<close>

text \<open>Python compares two \<open>str\<close> values code point by code point; a proper prefix is smaller.\<close>

fun str_lt :: "string \<Rightarrow> string \<Rightarrow> bool" where
  "str_lt [] [] = False"
| "str_lt [] (y # ys) = True"
| "str_lt (x # xs) [] = False"
| "str_lt (x # xs) (y # ys) =
     (if x = y then str_lt xs ys else (of_char x :: nat) < of_char y)"

text \<open>
  \<open>==\<close> between an \<open>int\<close> and a \<open>str\<close> is \<open>False\<close>; \<open><\<close> between them raises
  \<open>TypeError\<close>.
\<close>

fun elem_lt :: "key_elem \<Rightarrow> key_elem \<Rightarrow> py_error + bool" where
  "elem_lt (KInt a) (KInt b) = Inr (a < b)"
| "elem_lt (KStr a) (KStr b) = Inr (str_lt a b)"
| "elem_lt (KInt a) (KStr b) = Inl TypeError"
| "elem_lt (KStr a) (KInt b) = Inl TypeError"

text \<open>
  \<open><\<close> on two lists: the first position where the elements are not equal decides, with
  \<open><\<close> on these two elements; when one list runs out first, the shorter one is smaller.
\<close>

fun list_lt :: "key_elem list \<Rightarrow> key_elem list \<Rightarrow> py_error + bool" where
  "list_lt [] [] = Inr False"
| "list_lt [] (y # ys) = Inr True"
| "list_lt (x # xs) [] = Inr False"
| "list_lt (x # xs) (y # ys) = (if x = y then list_lt xs ys else elem_lt x y)"

text \<open>
  \<open>sorted(xs, key=natural_key)\<close>: the keys are computed first, for every element, left to
  right; then the elements are sorted on their keys with \<open><\<close> only, and stably. The sort
  is written as the insertion sort that Python runs on short lists: an element goes
  before the first one that its key is smaller than.
\<close>

fun decorate :: "string list \<Rightarrow> py_error + (key_elem list \<times> string) list" where
  "decorate [] = Inr []"
| "decorate (x # xs) =
     (case natural_key x of
        Inl e \<Rightarrow> Inl e
      | Inr k \<Rightarrow> (case decorate xs of Inl e \<Rightarrow> Inl e | Inr r \<Rightarrow> Inr ((k, x) # r)))"

fun insert_by_key ::
  "key_elem list \<times> string \<Rightarrow> (key_elem list \<times> string) list
    \<Rightarrow> py_error + (key_elem list \<times> string) list" where
  "insert_by_key kx [] = Inr [kx]"
| "insert_by_key kx (ky # r) =
     (case list_lt (fst kx) (fst ky) of
        Inl e \<Rightarrow> Inl e
      | Inr True \<Rightarrow> Inr (kx # ky # r)
      | Inr False \<Rightarrow> (case insert_by_key kx r of Inl e \<Rightarrow> Inl e | Inr r' \<Rightarrow> Inr (ky # r')))"

fun sort_decorated ::
  "(key_elem list \<times> string) list \<Rightarrow> (key_elem list \<times> string) list
    \<Rightarrow> py_error + (key_elem list \<times> string) list" where
  "sort_decorated done [] = Inr done"
| "sort_decorated done (kx # r) =
     (case insert_by_key kx done of Inl e \<Rightarrow> Inl e | Inr done' \<Rightarrow> sort_decorated done' r)"

definition sorted_natural :: "string list \<Rightarrow> py_error + string list" where
  "sorted_natural xs =
     (case decorate xs of
        Inl e \<Rightarrow> Inl e
      | Inr ks \<Rightarrow> (case sort_decorated [] ks of Inl e \<Rightarrow> Inl e | Inr r \<Rightarrow> Inr (map snd r)))"

text \<open>
  The shape of a key: texts and integers alternate. \<open>alternates True\<close> holds of a list
  that starts with a text, \<open>alternates False\<close> of one that starts with an integer.
  \<open>pieces_shape\<close> is the same for the pieces of the split: texts without a digit and
  non-empty runs of digits.
\<close>

fun alternates :: "bool \<Rightarrow> key_elem list \<Rightarrow> bool" where
  "alternates b [] = True"
| "alternates True (KStr t # r) = alternates False r"
| "alternates False (KInt n # r) = alternates True r"
| "alternates True (KInt n # r) = False"
| "alternates False (KStr t # r) = False"

fun pieces_shape :: "bool \<Rightarrow> string list \<Rightarrow> bool" where
  "pieces_shape b [] = True"
| "pieces_shape True (t # r) = (list_all (\<lambda>c. \<not> re_digit c) t \<and> pieces_shape False r)"
| "pieces_shape False (d # r) = (d \<noteq> [] \<and> list_all re_digit d \<and> pieces_shape True r)"

section \<open>The URL extractor\<close>

text \<open>
  \<open>IMG_EXT_RE\<close> is \<open>\.(jpe?g|png|gif|webp|bmp|tiff?)(\?|#|$)\<close>, case-insensitive, and
  \<open>is_probably_image_url\<close> searches it anywhere in the string. \<open>$\<close> matches at the end of
  the string and before a newline that ends it.
\<close>

definition img_exts :: "string list" where
  "img_exts = [''jpg'', ''jpeg'', ''png'', ''gif'', ''webp'', ''bmp'', ''tif'', ''tiff'']"

fun starts_with_ci :: "string \<Rightarrow> string \<Rightarrow> bool" where
  "starts_with_ci [] s = True"
| "starts_with_ci (p # ps) [] = False"
| "starts_with_ci (p # ps) (c # cs) = (lower_char c = p \<and> starts_with_ci ps cs)"

definition ext_end :: "string \<Rightarrow> bool" where
  "ext_end r \<longleftrightarrow>
     r = [] \<or> r = [CHR 0x0A] \<or> (r \<noteq> [] \<and> (hd r = CHR ''?'' \<or> hd r = CHR ''#''))"

definition ext_here :: "string \<Rightarrow> bool" where
  "ext_here s \<longleftrightarrow> list_ex (\<lambda>e. starts_with_ci e s \<and> ext_end (drop (length e) s)) img_exts"

fun is_probably_image_url :: "string \<Rightarrow> bool" where
  "is_probably_image_url [] = False"
| "is_probably_image_url (c # cs) =
     ((c = CHR ''.'' \<and> ext_here cs) \<or> is_probably_image_url cs)"

text \<open>
  \<open>html.unescape\<close> returns a string without \<open>&\<close> as it is, and otherwise substitutes the
  character references. The substitution, with its table of entities, belongs to the
  Python library: it is the parameter \<open>charref\<close>.
\<close>

definition unescape :: "(string \<Rightarrow> string) \<Rightarrow> string \<Rightarrow> string" where
  "unescape charref s = (if CHR ''&'' \<notin> set s then s else charref s)"

definition startswith :: "char \<Rightarrow> string \<Rightarrow> bool" where
  "startswith c u \<longleftrightarrow> u \<noteq> [] \<and> hd u = c"

definition endswith :: "char \<Rightarrow> string \<Rightarrow> bool" where
  "endswith c u \<longleftrightarrow> u \<noteq> [] \<and> last u = c"

text \<open>The quote test of \<open>clean_url\<close> and the slice \<open>u[1:-1]\<close> it guards.\<close>

definition strip_quotes :: "string \<Rightarrow> string" where
  "strip_quotes u =
     (if (startswith (CHR 0x22) u \<and> endswith (CHR 0x22) u)
         \<or> (startswith (CHR 0x27) u \<and> endswith (CHR 0x27) u)
      then butlast (tl u) else u)"

definition clean_url :: "(string \<Rightarrow> string) \<Rightarrow> string \<Rightarrow> string" where
  "clean_url charref u =
     (let u1 = strip (unescape charref u);
          u2 = (if (startswith (CHR 0x22) u1 \<and> endswith (CHR 0x22) u1)
                   \<or> (startswith (CHR 0x27) u1 \<and> endswith (CHR 0x27) u1)
                then butlast (tl u1) else u1)
      in strip u2)"

text \<open>\<open>srcset.split(",")\<close>, and the first field of \<open>part.split()\<close> for a stripped part.\<close>

fun split_on :: "char \<Rightarrow> string \<Rightarrow> string list" where
  "split_on sep [] = [[]]"
| "split_on sep (c # cs) =
     (if c = sep then [] # split_on sep cs
      else (case split_on sep cs of [] \<Rightarrow> [[c]] | p # ps \<Rightarrow> (c # p) # ps))"

definition parse_srcset :: "string \<Rightarrow> string list" where
  "parse_srcset srcset =
     concat (map (\<lambda>part.
         let part' = strip part
         in if part' = [] then []
            else (let url = strip (takeWhile (\<lambda>c. \<not> isspace_char c) part')
                  in if url \<noteq> [] then [url] else []))
       (split_on (CHR '','') srcset))"

text \<open>
  The parsed page. \<open>BeautifulSoup\<close> gives the \<open>img\<close> and the \<open>a\<close> elements in document
  order, each a map from attribute names to values; \<open>re.findall\<close> gives the matches of
  the absolute-URL pattern, which the code puts in a \<open>set\<close> and iterates: \<open>raw\<close> is that
  iteration, in whatever order the set gives it.
\<close>

type_synonym tag = "string \<rightharpoonup> string"

definition img_attrs :: "string list" where
  "img_attrs = [''src'', ''data-src'', ''data-original'', ''data-lazy'', ''data-img'', ''data-image'']"

definition truthy :: "string option \<Rightarrow> bool" where
  "truthy v \<longleftrightarrow> (case v of None \<Rightarrow> False | Some x \<Rightarrow> x \<noteq> [])"

definition img_values :: "tag \<Rightarrow> string list" where
  "img_values img =
     concat (map (\<lambda>attr. if truthy (img attr) then [the (img attr)] else []) img_attrs)
     @ (let srcset = (if truthy (img ''srcset'') then img ''srcset'' else img ''data-srcset'')
        in if truthy srcset then parse_srcset (the srcset) else [])"

definition anchor_values :: "tag \<Rightarrow> string list" where
  "anchor_values a =
     (let href = a ''href''
      in if truthy href \<and> is_probably_image_url (the href) then [the href] else [])"

definition collect_urls :: "tag list \<Rightarrow> tag list \<Rightarrow> string list \<Rightarrow> string list" where
  "collect_urls imgs anchors raw =
     concat (map img_values imgs) @ concat (map anchor_values anchors)
     @ filter is_probably_image_url raw"

text \<open>
  The loop "normalize, absolutize, dedupe", with its two variables \<open>seen\<close> and \<open>norm\<close>.
  \<open>urljoin\<close> belongs to the Python library: it is a parameter.
\<close>

fun normalize_loop ::
  "(string \<Rightarrow> string) \<Rightarrow> (string \<Rightarrow> string \<Rightarrow> string) \<Rightarrow> string
    \<Rightarrow> string list \<Rightarrow> string set \<Rightarrow> string list \<Rightarrow> string list" where
  "normalize_loop charref urljoin base_url [] seen norm = norm"
| "normalize_loop charref urljoin base_url (u # us) seen norm =
     (let c = clean_url charref u
      in if c = [] then normalize_loop charref urljoin base_url us seen norm
         else (let abs_u = urljoin base_url c
               in if abs_u \<notin> seen
                  then normalize_loop charref urljoin base_url us (insert abs_u seen) (norm @ [abs_u])
                  else normalize_loop charref urljoin base_url us seen norm))"

definition extract_image_urls_from_html ::
  "(string \<Rightarrow> string) \<Rightarrow> (string \<Rightarrow> string \<Rightarrow> string) \<Rightarrow> string
    \<Rightarrow> tag list \<Rightarrow> tag list \<Rightarrow> string list \<Rightarrow> string list" where
  "extract_image_urls_from_html charref urljoin base_url imgs anchors raw =
     normalize_loop charref urljoin base_url (collect_urls imgs anchors raw) {} []"

subsection \<open>What the specification says of the extractor\<close>

text \<open>
  The specification's normalization of one raw value, in its four steps: unescape, trim,
  strip one layer of quotes, resolve. \<open>spec_cleaned\<close> is the value it resolves.
\<close>

definition spec_cleaned :: "(string \<Rightarrow> string) \<Rightarrow> string \<Rightarrow> string" where
  "spec_cleaned charref u = strip_quotes (strip (unescape charref u))"

definition spec_normalize ::
  "(string \<Rightarrow> string) \<Rightarrow> (string \<Rightarrow> string \<Rightarrow> string) \<Rightarrow> string \<Rightarrow> string \<Rightarrow> string" where
  "spec_normalize charref urljoin base_url u = urljoin base_url (spec_cleaned charref u)"

text \<open>
  The normalization the loop applies to one raw value: \<open>None\<close> when the value is skipped
  (\<open>continue\<close>), else the absolute URL.
\<close>

definition normalize_value ::
  "(string \<Rightarrow> string) \<Rightarrow> (string \<Rightarrow> string \<Rightarrow> string) \<Rightarrow> string \<Rightarrow> string \<Rightarrow> string option" where
  "normalize_value charref urljoin base_url u =
     (let c = clean_url charref u in if c = [] then None else Some (urljoin base_url c))"

text \<open>
  Deduplication in the specification's words: the first occurrence of each value is
  kept, in the order of the list. \<open>first_index\<close> is the position of the first occurrence.
\<close>

fun first_occurrences :: "'a list \<Rightarrow> 'a list" where
  "first_occurrences [] = []"
| "first_occurrences (x # xs) = x # filter (\<lambda>y. y \<noteq> x) (first_occurrences xs)"


section \<open>Naming the downloaded files\<close>

text \<open>
  \<open>os.path.splitext\<close> is \<open>genericpath._splitext\<close>: the extension starts at the last dot
  of the path, when that dot stands after the last separator and some character between
  the separator and the dot is not a dot. The separators are \<open>/\<close> on POSIX, \<open>/\<close> and
  the backslash on Windows; \<open>is_sep\<close> says which characters they are. \<open>rfind\<close> is \<open>-1\<close>
  when nothing is found.
\<close>

definition posix_sep :: "char \<Rightarrow> bool" where
  "posix_sep c \<longleftrightarrow> c = CHR ''/''"

definition nt_sep :: "char \<Rightarrow> bool" where
  "nt_sep c \<longleftrightarrow> c = CHR ''/'' \<or> c = CHR 0x5C"

definition rfind :: "(char \<Rightarrow> bool) \<Rightarrow> string \<Rightarrow> int" where
  "rfind P p =
     (if list_ex P p
      then int (length p) - 1 - int (length (takeWhile (\<lambda>c. \<not> P c) (rev p)))
      else - 1)"

text \<open>The loop "skip all leading dots": is some character of \<open>p[i:dot]\<close> not a dot?\<close>

function some_not_dot :: "string \<Rightarrow> nat \<Rightarrow> nat \<Rightarrow> bool" where
  "some_not_dot p i dot =
     (if i < dot
      then (if take 1 (drop i p) \<noteq> ''.'' then True else some_not_dot p (Suc i) dot)
      else False)"
  by pat_completeness auto
termination
  by (relation "measure (\<lambda>(p, i, dot). dot - i)") auto

declare some_not_dot.simps [simp del]

definition splitext_ext :: "(char \<Rightarrow> bool) \<Rightarrow> string \<Rightarrow> string" where
  "splitext_ext is_sep p =
     (let sepIndex = rfind is_sep p;
          dotIndex = rfind (\<lambda>c. c = CHR ''.'') p
      in if dotIndex > sepIndex \<and> some_not_dot p (nat (sepIndex + 1)) (nat dotIndex)
         then drop (nat dotIndex) p else [])"

text \<open>\<open>f"{idx:04d}"\<close>: the decimal digits of the index, with zeros in front up to width 4.\<close>

fun dec_digits :: "nat \<Rightarrow> string" where
  "dec_digits n =
     (if n < 10 then [char_of (48 + n)] else dec_digits (n div 10) @ [char_of (48 + n mod 10)])"

declare dec_digits.simps [simp del]

definition fmt04d :: "nat \<Rightarrow> string" where
  "fmt04d idx = replicate (4 - length (dec_digits idx)) (CHR ''0'') @ dec_digits idx"

text \<open>
  The first lines of the body of the download loop, for the path \<open>urlparse(u).path\<close>.
  \<open>urlparse\<close> belongs to the Python library: \<open>url_path\<close> is a parameter.
\<close>

definition fname_for_path :: "(char \<Rightarrow> bool) \<Rightarrow> nat \<Rightarrow> string \<Rightarrow> string" where
  "fname_for_path is_sep idx path =
     (let ext = lower (splitext_ext is_sep path);
          ext = (if ext = [] \<or> length ext > 6 then ''.jpg'' else ext)
      in fmt04d idx @ ext)"

definition out_fname :: "(string \<Rightarrow> string) \<Rightarrow> (char \<Rightarrow> bool) \<Rightarrow> nat \<Rightarrow> string \<Rightarrow> string" where
  "out_fname url_path is_sep idx u = fname_for_path is_sep idx (url_path u)"


section \<open>The downloader\<close>

text \<open>
  The reason of a failed download. The code stores a message; the constructors stand
  for the empty message, the default of the field, and for the four messages of
  \<open>download_one\<close>: \<open>HTTP error: e\<close>, \<open>Content-Type no parece imagen: ctype\<close>,
  \<open>FS error: e\<close> and the fixed message for a file that is too small.
\<close>

datatype reason = NoReason | HttpError string | NotAnImage string | FsError string | TooSmall

record DownloadResult =
  ok :: bool
  path :: string
  url :: string
  reason :: reason

text \<open>
  What the world does to one download. \<open>RequestError e\<close>: \<open>session.get\<close> or
  \<open>raise_for_status\<close> raises a \<open>RequestException\<close>. \<open>Reply ct chunks err\<close>: the request
  succeeds with the \<open>Content-Type\<close> header \<open>ct\<close> (\<open>None\<close> when absent), \<open>iter_content\<close>
  yields \<open>chunks\<close> and then ends, or raises the \<open>RequestException\<close> \<open>err\<close>. \<open>open_error\<close>:
  opening the output file raises an \<open>OSError\<close>. \<open>write_error = Some (k, e)\<close>: writing chunk
  number \<open>k\<close> raises an \<open>OSError\<close>. \<open>remove_error\<close>: \<open>os.remove\<close> of the partial file
  raises an \<open>OSError\<close>, which the main loop ignores.
\<close>

datatype http_reply = RequestError string | Reply "string option" "string list" "string option"

record item_env =
  reply :: http_reply
  open_error :: "string option"
  write_error :: "(nat \<times> string) option"
  remove_error :: bool

text \<open>The images directory: file names to contents (bytes).\<close>

type_synonym dir = "string \<rightharpoonup> string"

fun contains :: "string \<Rightarrow> string \<Rightarrow> bool" where
  "contains sub [] = (sub = [])"
| "contains sub (c # cs) = (take (length sub) (c # cs) = sub \<or> contains sub cs)"

text \<open>
  The loop over \<open>iter_content\<close>: an empty chunk is not written; the content so far is
  returned with the error of the write that raised, if one did.
\<close>

fun write_chunks ::
  "(nat \<times> string) option \<Rightarrow> nat \<Rightarrow> string list \<Rightarrow> string \<Rightarrow> string option \<times> string" where
  "write_chunks werr k [] content = (None, content)"
| "write_chunks werr k (chunk # chunks) content =
     (if chunk = [] then write_chunks werr (Suc k) chunks content
      else (case werr of
              None \<Rightarrow> write_chunks werr (Suc k) chunks (content @ chunk)
            | Some (j, e) \<Rightarrow>
                if j = k then (Some e, content)
                else write_chunks werr (Suc k) chunks (content @ chunk)))"

definition failed :: "string \<Rightarrow> string \<Rightarrow> reason \<Rightarrow> DownloadResult" where
  "failed out_path u r = \<lparr>ok = False, path = out_path, url = u, reason = r\<rparr>"

definition download_one :: "dir \<Rightarrow> item_env \<Rightarrow> string \<Rightarrow> string \<Rightarrow> DownloadResult \<times> dir" where
  "download_one fs env u out_path =
     (case reply env of
        RequestError e \<Rightarrow> (failed out_path u (HttpError e), fs)
      | Reply ct chunks err \<Rightarrow>
          (let ctype = lower (case ct of None \<Rightarrow> [] | Some c \<Rightarrow> c)
           in if \<not> contains ''image'' ctype \<and> \<not> is_probably_image_url u
              then (failed out_path u (NotAnImage ctype), fs)
              else (case open_error env of
                      Some e \<Rightarrow> (failed out_path u (FsError e), fs)
                    | None \<Rightarrow>
                        (case write_chunks (write_error env) 0 chunks [] of
                           (Some e, content) \<Rightarrow>
                             (failed out_path u (FsError e), fs(out_path \<mapsto> content))
                         | (None, content) \<Rightarrow>
                             (case err of
                                Some e \<Rightarrow>
                                  (failed out_path u (HttpError e), fs(out_path \<mapsto> content))
                              | None \<Rightarrow>
                                  if length content < 1024
                                  then (failed out_path u TooSmall, fs(out_path \<mapsto> content))
                                  else (\<lparr>ok = True, path = out_path, url = u, reason = NoReason\<rparr>,
                                        fs(out_path \<mapsto> content)))))))"

text \<open>
  The download loop of \<open>main\<close>, with its variables \<open>ok_count\<close> and \<open>failures\<close> and the
  images directory. \<open>item idx\<close> is what the world does to the download at index \<open>idx\<close>.
\<close>

record run_state =
  ok_count :: nat
  failures :: "(string \<times> reason) list"
  images_dir :: dir

definition download_step ::
  "(string \<Rightarrow> string) \<Rightarrow> (char \<Rightarrow> bool) \<Rightarrow> (nat \<Rightarrow> item_env) \<Rightarrow> nat \<Rightarrow> string
    \<Rightarrow> run_state \<Rightarrow> run_state" where
  "download_step url_path is_sep item idx u st =
     (let fname = out_fname url_path is_sep idx u;
          (res, fs) = download_one (images_dir st) (item idx) u fname
      in if ok res then st\<lparr>ok_count := ok_count st + 1, images_dir := fs\<rparr>
         else st\<lparr>failures := failures st @ [(u, reason res)],
                 images_dir := (if fs fname \<noteq> None \<and> \<not> remove_error (item idx)
                                then fs(fname := None) else fs)\<rparr>)"

fun download_loop ::
  "(string \<Rightarrow> string) \<Rightarrow> (char \<Rightarrow> bool) \<Rightarrow> (nat \<Rightarrow> item_env) \<Rightarrow> nat \<Rightarrow> string list
    \<Rightarrow> run_state \<Rightarrow> run_state" where
  "download_loop url_path is_sep item idx [] st = st"
| "download_loop url_path is_sep item idx (u # us) st =
     download_loop url_path is_sep item (Suc idx) us (download_step url_path is_sep item idx u st)"

text \<open>The loop as \<open>main\<close> runs it: from index 1, on an empty directory.\<close>

definition run_downloads ::
  "(string \<Rightarrow> string) \<Rightarrow> (char \<Rightarrow> bool) \<Rightarrow> (nat \<Rightarrow> item_env) \<Rightarrow> string list \<Rightarrow> run_state" where
  "run_downloads url_path is_sep item urls =
     download_loop url_path is_sep item 1 urls
       \<lparr>ok_count = 0, failures = [], images_dir = Map.empty\<rparr>"

text \<open>
  Whether a download succeeds depends on the world only, not on the directory or the
  file name: \<open>item_succeeds\<close> runs \<open>download_one\<close> on an empty directory. \<open>ok_items\<close> are
  the candidates, with their indices, whose downloads succeed, \<open>failed_entries\<close> the
  others with the reasons of their failures, and \<open>idx_of_fname\<close> reads back the index
  that a file name starts with.
\<close>

definition item_succeeds :: "item_env \<Rightarrow> string \<Rightarrow> bool" where
  "item_succeeds env u = ok (fst (download_one Map.empty env u []))"

fun ok_items :: "(nat \<Rightarrow> item_env) \<Rightarrow> nat \<Rightarrow> string list \<Rightarrow> (nat \<times> string) list" where
  "ok_items item idx [] = []"
| "ok_items item idx (u # us) =
     (if item_succeeds (item idx) u then [(idx, u)] else []) @ ok_items item (Suc idx) us"

fun failed_entries :: "(nat \<Rightarrow> item_env) \<Rightarrow> nat \<Rightarrow> string list \<Rightarrow> (string \<times> reason) list" where
  "failed_entries item idx [] = []"
| "failed_entries item idx (u # us) =
     (if item_succeeds (item idx) u then []
      else [(u, reason (fst (download_one Map.empty (item idx) u [])))])
     @ failed_entries item (Suc idx) us"

definition idx_of_fname :: "string \<Rightarrow> nat" where
  "idx_of_fname f = digits_value 0 (takeWhile re_digit f)"

section \<open>The archiver and the main program\<close>














section \<open>Properties of the natural-sort key\<close>



lemma takeWhile_all: "list_all P xs \<Longrightarrow> takeWhile P (xs @ ys) = xs @ takeWhile P ys"
  by (induction xs) auto


lemma takeWhile_stop: "ys = [] \<or> \<not> P (hd ys) \<Longrightarrow> takeWhile P ys = []"
  by (cases ys) auto







lemma key_of_digit_run:
  assumes "d \<noteq> []" "list_all re_digit d"
  shows "key_of_piece d = Inr (KInt (int (digits_value 0 d)))"
proof -
  have "list_all isdigit_char d"
    using assms(2) by (simp add: list_all_iff isdigit_char_def)
  then show ?thesis
    using assms by (simp add: key_of_piece_def isdigit_def py_int_def)
qed

lemma list_lt_common_prefix: "list_lt (a @ xs) (a @ ys) = list_lt xs ys"
  by (induction a) auto





lemma key_of_pieces_nth:
  "key_of_pieces ps = Inr k \<Longrightarrow>
     length k = length ps \<and> (\<forall>i<length ps. key_of_piece (ps ! i) = Inr (k ! i))"
proof (induction ps arbitrary: k)
  case Nil
  then show ?case by simp
next
  case (Cons t ts)
  from Cons.prems obtain x xs where x: "key_of_piece t = Inr x"
    and xs: "key_of_pieces ts = Inr xs" and k: "k = x # xs"
    by (auto split: sum.splits)
  from Cons.IH [OF xs] show ?case
    using x k by (auto simp: nth_Cons split: nat.splits)
qed

lemma key_of_piece_text: "key_of_piece t = Inr (KStr a) \<Longrightarrow> a = lower t"
  by (auto simp: key_of_piece_def split: if_splits sum.splits)

lemma list_lt_first_difference:
  assumes "i < length ks" "i < length kt" "take i ks = take i kt" "ks ! i \<noteq> kt ! i"
  shows "list_lt ks kt = elem_lt (ks ! i) (kt ! i)"
proof -
  have "ks = take i ks @ ks ! i # drop (Suc i) ks"
    using assms(1) by (simp add: id_take_nth_drop)
  moreover have "kt = take i ks @ kt ! i # drop (Suc i) kt"
    using assms(2,3) by (simp add: id_take_nth_drop)
  ultimately have "list_lt ks kt =
      list_lt (take i ks @ ks ! i # drop (Suc i) ks) (take i ks @ kt ! i # drop (Suc i) kt)"
    by simp
  also have "\<dots> = elem_lt (ks ! i) (kt ! i)"
    using assms(4) by (simp add: list_lt_common_prefix)
  finally show ?thesis .
qed

text \<open>
  Claim C3, as the code has it. When the keys of two strings are computed and first
  differ at position \<open>i\<close>, where both hold a text, the comparison of the keys in either
  direction is the code point order of these two texts, and each text is the lower-cased
  piece \<open>i\<close> of its string: the order is the plain string order of the lower-cased
  segments, not of the segments themselves.
\<close>

theorem natural_key_text_segments_lowercased:
  assumes ks: "natural_key s = Inr ks" and kt: "natural_key t = Inr kt"
    and i: "i < length ks" "i < length kt"
    and same: "take i ks = take i kt"
    and a: "ks ! i = KStr a" and b: "kt ! i = KStr b" and ne: "a \<noteq> b"
  shows "list_lt ks kt = Inr (str_lt a b) \<and> list_lt kt ks = Inr (str_lt b a)
         \<and> a = lower (re_split_digits s ! i) \<and> b = lower (re_split_digits t ! i)"
proof -
  have d: "ks ! i \<noteq> kt ! i" using a b ne by simp
  have "list_lt ks kt = elem_lt (ks ! i) (kt ! i)"
    using i same d by (rule list_lt_first_difference)
  then have 1: "list_lt ks kt = Inr (str_lt a b)" using a b by simp
  have "list_lt kt ks = elem_lt (kt ! i) (ks ! i)"
    using i(2) i(1) same [symmetric] d [symmetric] by (rule list_lt_first_difference)
  then have 2: "list_lt kt ks = Inr (str_lt b a)" using a b by simp
  from key_of_pieces_nth [OF ks [unfolded natural_key_def]] i(1) a
  have "key_of_piece (re_split_digits s ! i) = Inr (KStr a)" by simp
  then have 3: "a = lower (re_split_digits s ! i)" by (rule key_of_piece_text)
  from key_of_pieces_nth [OF kt [unfolded natural_key_def]] i(2) b
  have "key_of_piece (re_split_digits t ! i) = Inr (KStr b)" by simp
  then have 4: "b = lower (re_split_digits t ! i)" by (rule key_of_piece_text)
  show ?thesis using 1 2 3 4 by simp
qed

theorem natural_key_text_segments_lowercased_witness:
  "list_lt [KStr ''pageb.png''] [KStr ''pagea.png''] = Inr (str_lt ''pageb.png'' ''pagea.png'')
   \<and> list_lt [KStr ''pagea.png''] [KStr ''pageb.png''] = Inr (str_lt ''pagea.png'' ''pageb.png'')
   \<and> ''pageb.png'' = lower (re_split_digits ''pageB.png'' ! 0)
   \<and> ''pagea.png'' = lower (re_split_digits ''pagea.png'' ! 0)"
proof -
  have k1: "natural_key ''pageB.png'' = Inr [KStr ''pageb.png'']" by code_simp
  have k2: "natural_key ''pagea.png'' = Inr [KStr ''pagea.png'']" by code_simp
  show ?thesis
    by (rule natural_key_text_segments_lowercased [OF k1 k2, of 0]) simp_all
qed

text \<open>
  The strings \<open>B\<close> and \<open>a\<close>: their keys first differ at the text at position 0. In the
  plain string order \<open>B\<close> is smaller than \<open>a\<close>; the keys, and \<open>sorted\<close>, put \<open>a\<close> first.
\<close>

theorem plain_string_order_counterexample:
  "natural_key ''B'' = Inr [KStr ''b''] \<and> natural_key ''a'' = Inr [KStr ''a'']
   \<and> re_split_digits ''B'' = [''B''] \<and> re_split_digits ''a'' = [''a'']
   \<and> str_lt ''B'' ''a'' \<and> \<not> str_lt ''a'' ''B''
   \<and> list_lt [KStr ''b''] [KStr ''a''] = Inr False
   \<and> list_lt [KStr ''a''] [KStr ''b''] = Inr True
   \<and> sorted_natural [''B'', ''a''] = Inr [''a'', ''B'']"
  by code_simp

text \<open>
  Claim C10 says that every string has a key with texts at the even positions. The
  string \<open>a1\<close>, U+00B2, \<open>3\<close> splits into \<open>a\<close>, \<open>1\<close>, U+00B2, \<open>3\<close> and the empty text.
  The piece U+00B2 is no match of \<open>\d+\<close>, yet \<open>isdigit\<close> holds of it, so the key takes
  \<open>int\<close> of it, which raises \<open>ValueError\<close>: there is no key, and \<open>sorted\<close> of a list
  holding the string raises too.
\<close>

theorem natural_key_superscript_digit_raises:
  "re_split_digits [CHR ''a'', CHR ''1'', CHR 0xB2, CHR ''3''] = [''a'', ''1'', [CHR 0xB2], ''3'', '''']
   \<and> isdigit [CHR 0xB2] \<and> py_int [CHR 0xB2] = Inl ValueError
   \<and> natural_key [CHR ''a'', CHR ''1'', CHR 0xB2, CHR ''3''] = Inl ValueError
   \<and> sorted_natural [[CHR ''a'', CHR ''1'', CHR 0xB2, CHR ''3''], ''a2''] = Inl ValueError"
  by code_simp

section \<open>Properties of the URL extractor\<close>


lemma clean_url_steps:
  "clean_url charref u = strip (strip_quotes (strip (unescape charref u)))"
  by (simp add: clean_url_def strip_quotes_def Let_def)

lemma filter_first_occurrences_drop:
  "a \<in> A \<Longrightarrow> filter (\<lambda>x. x \<noteq> a \<and> x \<notin> A) xs = filter (\<lambda>x. x \<notin> A) xs"
  by (induction xs) auto

lemma normalize_loop_eq:
  "normalize_loop charref urljoin base_url us (set norm) norm =
     norm @ filter (\<lambda>a. a \<notin> set norm)
       (first_occurrences (List.map_filter (normalize_value charref urljoin base_url) us))"
proof (induction us arbitrary: norm)
  case Nil
  then show ?case by (simp add: map_filter_simps)
next
  case (Cons u us)
  let ?nv = "normalize_value charref urljoin base_url"
  show ?case
  proof (cases "clean_url charref u = []")
    case True
    then have "?nv u = None" by (simp add: normalize_value_def)
    then show ?thesis using True Cons.IH [of norm] by (simp add: map_filter_simps)
  next
    case False
    define a where "a = urljoin base_url (clean_url charref u)"
    have nv: "?nv u = Some a" using False by (simp add: normalize_value_def a_def)
    show ?thesis
    proof (cases "a \<in> set norm")
      case True
      have "normalize_loop charref urljoin base_url (u # us) (set norm) norm =
          normalize_loop charref urljoin base_url us (set norm) norm"
        using False True by (simp add: a_def Let_def)
      also have "\<dots> = norm @ filter (\<lambda>a. a \<notin> set norm)
          (first_occurrences (List.map_filter ?nv us))"
        by (rule Cons.IH)
      also have "\<dots> = norm @ filter (\<lambda>a. a \<notin> set norm)
          (first_occurrences (List.map_filter ?nv (u # us)))"
        using True nv by (simp add: map_filter_simps filter_first_occurrences_drop)
      finally show ?thesis .
    next
      case notin: False
      have "normalize_loop charref urljoin base_url (u # us) (set norm) norm =
          normalize_loop charref urljoin base_url us (set (norm @ [a])) (norm @ [a])"
        using False notin by (simp add: a_def Let_def)
      also have "\<dots> = (norm @ [a]) @ filter (\<lambda>x. x \<notin> set (norm @ [a]))
          (first_occurrences (List.map_filter ?nv us))"
        by (rule Cons.IH)
      also have "filter (\<lambda>x. x \<notin> set (norm @ [a])) (first_occurrences (List.map_filter ?nv us))
          = filter (\<lambda>x. x \<notin> set norm)
              (filter (\<lambda>y. y \<noteq> a) (first_occurrences (List.map_filter ?nv us)))"
        by (auto intro: filter_cong)
      also have "(norm @ [a]) @ filter (\<lambda>x. x \<notin> set norm)
              (filter (\<lambda>y. y \<noteq> a) (first_occurrences (List.map_filter ?nv us)))
          = norm @ filter (\<lambda>a. a \<notin> set norm)
              (first_occurrences (List.map_filter ?nv (u # us)))"
        using notin nv by (simp add: map_filter_simps)
      finally show ?thesis .
    qed
  qed
qed

lemma extract_eq_first_occurrences:
  "extract_image_urls_from_html charref urljoin base_url imgs anchors raw =
     first_occurrences (List.map_filter (normalize_value charref urljoin base_url)
       (collect_urls imgs anchors raw))"
  using normalize_loop_eq [of charref urljoin base_url "collect_urls imgs anchors raw" "[]"]
  by (simp add: extract_image_urls_from_html_def)









text \<open>
  Claim C4, as the code has it. One raw value is normalized in these steps, in this
  order: unescape, trim, strip one layer of matching quotes, trim again, and, unless
  the result is empty, in which case the value is skipped, resolve against the base URL.
  The extractor applies this to every collected raw value, in the order of collection.
\<close>

theorem normalization_steps_as_coded:
  "normalize_value charref urljoin base_url u =
     (let c = strip (strip_quotes (strip (unescape charref u)))
      in if c = [] then None else Some (urljoin base_url c))
   \<and> extract_image_urls_from_html charref urljoin base_url imgs anchors raw =
       first_occurrences (List.map_filter (normalize_value charref urljoin base_url)
         (collect_urls imgs anchors raw))"
  by (simp add: normalize_value_def clean_url_steps extract_eq_first_occurrences)

text \<open>
  The raw value \<open>" a "\<close>, quotes included, has no \<open>&\<close> (so \<open>charref\<close> is not consulted):
  the code resolves \<open>a\<close>, the four steps of the specification resolve \<open>a\<close> between two
  spaces. The raw value of two single quotes is empty once cleaned: the code skips it and
  resolves nothing, whatever \<open>urljoin\<close> is.
\<close>

theorem normalization_four_steps_counterexample:
  "clean_url (\<lambda>s. s) [CHR 0x22, CHR '' '', CHR ''a'', CHR '' '', CHR 0x22] = ''a''
   \<and> spec_cleaned (\<lambda>s. s) [CHR 0x22, CHR '' '', CHR ''a'', CHR '' '', CHR 0x22] = '' a ''
   \<and> normalize_value (\<lambda>s. s) (\<lambda>b u. u) ''https://x.test/p''
        [CHR 0x22, CHR '' '', CHR ''a'', CHR '' '', CHR 0x22] = Some ''a''
   \<and> spec_normalize (\<lambda>s. s) (\<lambda>b u. u) ''https://x.test/p''
        [CHR 0x22, CHR '' '', CHR ''a'', CHR '' '', CHR 0x22] = '' a ''
   \<and> normalize_value (\<lambda>s. s) (\<lambda>b u. u) ''https://x.test/p'' [CHR 0x27, CHR 0x27] = None"
  by code_simp

section \<open>Properties of the file names\<close>


lemma length_lower [simp]: "length (lower t) = length t"
  by (simp add: lower_def)

lemma lower_Nil_iff [simp]: "lower t = [] \<longleftrightarrow> t = []"
  by (simp add: lower_def)

lemma digits_value_snoc:
  "digits_value acc (xs @ [c]) = 10 * digits_value acc xs + (of_char c - 48)"
  by (induction xs arbitrary: acc) auto

lemma digits_value_zeros: "digits_value 0 (replicate k (CHR ''0'') @ xs) = digits_value 0 xs"
  by (induction k) auto

lemma digits_value_dec_digits: "digits_value 0 (dec_digits n) = n"
proof (induction n rule: dec_digits.induct)
  case (1 n)
  show ?case
  proof (cases "n < 10")
    case True
    then show ?thesis by (subst dec_digits.simps) simp
  next
    case False
    have "48 + n mod 10 < 256" by (simp add: less_le_trans [OF mod_less_divisor])
    then have "(of_char (char_of (48 + n mod 10)) :: nat) = 48 + n mod 10" by simp
    then show ?thesis
      using False "1.IH" by (subst dec_digits.simps) (simp add: digits_value_snoc)
  qed
qed

lemma re_digit_char_of: "k < 10 \<Longrightarrow> re_digit (char_of (48 + (k::nat)))"
  by (simp add: re_digit_def)

lemma dec_digits_are_digits: "list_all re_digit (dec_digits n)"
proof (induction n rule: dec_digits.induct)
  case (1 n)
  show ?case
  proof (cases "n < 10")
    case True
    then show ?thesis by (subst dec_digits.simps) (simp add: re_digit_char_of)
  next
    case False
    then show ?thesis
      using "1.IH" by (subst dec_digits.simps) (simp add: re_digit_char_of)
  qed
qed



lemma fmt04d_digits: "list_all re_digit (fmt04d idx)"
proof -
  have "re_digit (CHR ''0'')" by (simp add: re_digit_def)
  then have "list_all re_digit (replicate (4 - length (dec_digits idx)) (CHR ''0''))"
    by (simp add: list_all_iff)
  then show ?thesis
    using dec_digits_are_digits [of idx] by (simp add: fmt04d_def)
qed

lemma fmt04d_value: "digits_value 0 (fmt04d idx) = idx"
  by (simp add: fmt04d_def digits_value_zeros digits_value_dec_digits)







lemma rfind_found:
  assumes "0 \<le> rfind P p"
  shows "nat (rfind P p) < length p \<and> P (p ! nat (rfind P p))"
proof -
  define k where "k = length (takeWhile (\<lambda>c. \<not> P c) (rev p))"
  have ex: "list_ex P p" using assms by (auto simp: rfind_def split: if_splits)
  have "takeWhile (\<lambda>c. \<not> P c) (rev p) \<noteq> rev p"
    using ex by (auto simp: takeWhile_eq_all_conv list_ex_iff)
  then have "k \<noteq> length (rev p)"
    unfolding k_def by (metis takeWhile_eq_take take_all order_refl)
  moreover have "k \<le> length (rev p)" unfolding k_def by (rule length_takeWhile_le)
  ultimately have k: "k < length p" by simp
  then have "\<not> \<not> P (rev p ! k)"
    unfolding k_def using nth_length_takeWhile [of "\<lambda>c. \<not> P c" "rev p"] by simp
  then have "P (p ! (length p - Suc k))" using k by (simp add: rev_nth)
  moreover have "nat (rfind P p) = length p - Suc k"
    using ex k by (simp add: rfind_def k_def)
  ultimately show ?thesis using k by simp
qed

lemma splitext_ext_dot:
  assumes "splitext_ext is_sep p \<noteq> []"
  shows "hd (splitext_ext is_sep p) = CHR ''.''"
proof -
  let ?dot = "rfind (\<lambda>c. c = CHR ''.'') p"
  from assms have gt: "?dot > rfind is_sep p" and e: "splitext_ext is_sep p = drop (nat ?dot) p"
    by (auto simp: splitext_ext_def Let_def split: if_splits)
  have "- 1 \<le> rfind is_sep p"
    using length_takeWhile_le [of "\<lambda>c. \<not> is_sep c" "rev p"] by (simp add: rfind_def)
  then have "0 \<le> ?dot" using gt by simp
  from rfind_found [OF this] show ?thesis
    by (simp add: e hd_drop_conv_nth)
qed

lemma lower_char_dot: "lower_char (CHR ''.'') = CHR ''.''"
  by (simp add: lower_char_def)

lemma out_fname_shape:
  "\<exists>ext. out_fname url_path is_sep idx u = fmt04d idx @ ext \<and> ext \<noteq> [] \<and> hd ext = CHR ''.''"
proof (cases "splitext_ext is_sep (url_path u) \<noteq> [] \<and> length (splitext_ext is_sep (url_path u)) \<le> 6")
  case True
  then have "hd (lower (splitext_ext is_sep (url_path u))) = CHR ''.''"
    using splitext_ext_dot [of is_sep "url_path u"]
    by (simp add: lower_def hd_map lower_char_dot)
  then show ?thesis
    using True by (auto simp: out_fname_def fname_for_path_def Let_def)
next
  case False
  then show ?thesis
    by (auto simp: out_fname_def fname_for_path_def Let_def)
qed

lemma not_digit_dot: "\<not> re_digit (CHR ''.'')"
  by (simp add: re_digit_def)

lemma idx_of_out_fname: "idx_of_fname (out_fname url_path is_sep idx u) = idx"
proof -
  from out_fname_shape [of url_path is_sep idx u] obtain ext
    where f: "out_fname url_path is_sep idx u = fmt04d idx @ ext"
      and e: "ext \<noteq> []" "hd ext = CHR ''.''"
    by blast
  have "takeWhile re_digit (fmt04d idx @ ext) = fmt04d idx"
    using e by (simp add: takeWhile_all fmt04d_digits takeWhile_stop not_digit_dot)
  then show ?thesis by (simp add: idx_of_fname_def f fmt04d_value)
qed

lemma out_fname_inj:
  "out_fname url_path is_sep i u = out_fname url_path is_sep j v \<Longrightarrow> i = j"
  using idx_of_out_fname [of url_path is_sep i u] idx_of_out_fname [of url_path is_sep j v]
  by simp

section \<open>Properties of the downloader\<close>


text \<open>
  Claim C6, as the code has it. When the request succeeds, the download fails with the
  reason \<open>NotAnImage\<close> exactly when the lower-cased \<open>Content-Type\<close> (empty when the header
  is absent) does not contain \<open>image\<close> and the URL does not match the image-extension
  pattern; nothing is written then. When the URL matches the pattern the download never
  fails with this reason, whatever the content type.
\<close>

theorem not_an_image_iff_lowercased:
  assumes "reply env = Reply ct chunks err"
  shows "((\<exists>c. reason (fst (download_one fs env u out_path)) = NotAnImage c) \<longleftrightarrow>
            \<not> contains ''image'' (lower (case ct of None \<Rightarrow> [] | Some c \<Rightarrow> c))
            \<and> \<not> is_probably_image_url u)
       \<and> (\<not> contains ''image'' (lower (case ct of None \<Rightarrow> [] | Some c \<Rightarrow> c))
            \<and> \<not> is_probably_image_url u \<longrightarrow>
          download_one fs env u out_path =
            (failed out_path u (NotAnImage (lower (case ct of None \<Rightarrow> [] | Some c \<Rightarrow> c))), fs))
       \<and> (is_probably_image_url u \<longrightarrow>
            (\<forall>c. reason (fst (download_one fs env u out_path)) \<noteq> NotAnImage c))"
  using assms
  by (auto simp: download_one_def failed_def Let_def split: option.splits prod.splits)

theorem not_an_image_iff_lowercased_witness:
  "download_one Map.empty
      \<lparr>reply = Reply (Some ''text/html'') [''<html>''] None, open_error = None,
       write_error = None, remove_error = False\<rparr> ''https://x.test/view?id=1'' ''0001.jpg''
     = (failed ''0001.jpg'' ''https://x.test/view?id=1'' (NotAnImage ''text/html''), Map.empty)
   \<and> \<not> contains ''image'' (lower ''text/html'')
   \<and> \<not> is_probably_image_url ''https://x.test/view?id=1''"
proof -
  have a: "\<not> contains ''image'' (lower ''text/html'')" by code_simp
  have b: "\<not> is_probably_image_url ''https://x.test/view?id=1''" by code_simp
  have c: "lower ''text/html'' = ''text/html''" by code_simp
  show ?thesis
    using not_an_image_iff_lowercased [of
      "\<lparr>reply = Reply (Some ''text/html'') [''<html>''] None, open_error = None,
        write_error = None, remove_error = False\<rparr>" "Some ''text/html''" "[''<html>'']" None
      Map.empty "''https://x.test/view?id=1''" "''0001.jpg''"] a b c
    by simp
qed

text \<open>
  A reply with the content type \<open>IMAGE/PNG\<close>, which does not contain \<open>image\<close>, for a URL
  that does not match the pattern, with 1024 bytes of body: the download succeeds.
\<close>

theorem content_type_case_counterexample:
  "\<not> contains ''image'' ''IMAGE/PNG'' \<and> \<not> is_probably_image_url ''https://x.test/pic''
   \<and> download_one Map.empty
        \<lparr>reply = Reply (Some ''IMAGE/PNG'') [replicate 1024 (CHR ''x'')] None, open_error = None,
         write_error = None, remove_error = False\<rparr> ''https://x.test/pic'' ''0001.jpg''
       = (\<lparr>ok = True, path = ''0001.jpg'', url = ''https://x.test/pic'', reason = NoReason\<rparr>,
          [''0001.jpg'' \<mapsto> replicate 1024 (CHR ''x'')])"
proof -
  have a: "\<not> contains ''image'' ''IMAGE/PNG''" by code_simp
  have b: "\<not> is_probably_image_url ''https://x.test/pic''" by code_simp
  have c: "contains ''image'' (lower ''IMAGE/PNG'')" by code_simp
  show ?thesis using a b c by (simp add: download_one_def)
qed


lemma download_one_ok_indep:
  "ok (fst (download_one fs env u p)) = item_succeeds env u"
  by (auto simp: download_one_def item_succeeds_def failed_def Let_def
      split: http_reply.splits option.splits prod.splits)

lemma download_one_reason_indep:
  "reason (fst (download_one fs env u p)) = reason (fst (download_one Map.empty env u []))"
  by (auto simp: download_one_def failed_def Let_def
      split: http_reply.splits option.splits prod.splits)

lemma download_one_other:
  "n \<noteq> p \<Longrightarrow> snd (download_one fs env u p) n = fs n"
  by (auto simp: download_one_def failed_def Let_def
      split: http_reply.splits option.splits prod.splits)

lemma download_one_ok_file:
  "ok (fst (download_one fs env u p)) \<Longrightarrow>
     \<exists>content. snd (download_one fs env u p) p = Some content \<and> 1024 \<le> length content"
  by (auto simp: download_one_def failed_def Let_def
      split: http_reply.splits option.splits prod.splits if_splits)

lemma download_one_too_small:
  assumes "reply env = Reply ct chunks None"
    and "contains ''image'' (lower (case ct of None \<Rightarrow> [] | Some c \<Rightarrow> c)) \<or> is_probably_image_url u"
    and "open_error env = None"
    and "write_chunks (write_error env) 0 chunks [] = (None, content)"
    and "length content < 1024"
  shows "download_one fs env u p = (failed p u TooSmall, fs(p \<mapsto> content))"
  using assms by (auto simp: download_one_def Let_def)

lemma download_step_unfold:
  "download_step url_path is_sep item idx u st =
     (if ok (fst (download_one (images_dir st) (item idx) u (out_fname url_path is_sep idx u)))
      then st\<lparr>ok_count := ok_count st + 1,
              images_dir := snd (download_one (images_dir st) (item idx) u
                                  (out_fname url_path is_sep idx u))\<rparr>
      else st\<lparr>failures := failures st @
                [(u, reason (fst (download_one (images_dir st) (item idx) u
                                   (out_fname url_path is_sep idx u))))],
              images_dir :=
                (if snd (download_one (images_dir st) (item idx) u
                          (out_fname url_path is_sep idx u)) (out_fname url_path is_sep idx u) \<noteq> None
                    \<and> \<not> remove_error (item idx)
                 then (snd (download_one (images_dir st) (item idx) u
                             (out_fname url_path is_sep idx u)))
                        (out_fname url_path is_sep idx u := None)
                 else snd (download_one (images_dir st) (item idx) u
                             (out_fname url_path is_sep idx u)))\<rparr>)"
  by (simp add: download_step_def Let_def case_prod_beta)

lemma step_other:
  "n \<noteq> out_fname url_path is_sep idx u \<Longrightarrow>
     images_dir (download_step url_path is_sep item idx u st) n = images_dir st n"
  using download_one_other [of n "out_fname url_path is_sep idx u" "images_dir st" "item idx" u]
  by (simp add: download_step_unfold)

lemma step_ok:
  assumes "item_succeeds (item idx) u"
  shows "ok_count (download_step url_path is_sep item idx u st) = ok_count st + 1"
    and "failures (download_step url_path is_sep item idx u st) = failures st"
    and "\<exists>content. images_dir (download_step url_path is_sep item idx u st)
            (out_fname url_path is_sep idx u) = Some content \<and> 1024 \<le> length content"
proof -
  let ?f = "out_fname url_path is_sep idx u"
  have o: "ok (fst (download_one (images_dir st) (item idx) u ?f))"
    using assms by (simp add: download_one_ok_indep)
  show "ok_count (download_step url_path is_sep item idx u st) = ok_count st + 1"
    using o by (simp add: download_step_unfold)
  show "failures (download_step url_path is_sep item idx u st) = failures st"
    using o by (simp add: download_step_unfold)
  show "\<exists>content. images_dir (download_step url_path is_sep item idx u st) ?f = Some content
      \<and> 1024 \<le> length content"
    using o download_one_ok_file [OF o]
    by (simp add: download_step_unfold)
qed

lemma step_fail:
  assumes "\<not> item_succeeds (item idx) u"
  shows "ok_count (download_step url_path is_sep item idx u st) = ok_count st"
    and "failures (download_step url_path is_sep item idx u st) =
          failures st @ [(u, reason (fst (download_one Map.empty (item idx) u [])))]"
    and "\<not> remove_error (item idx) \<Longrightarrow>
          images_dir (download_step url_path is_sep item idx u st)
            (out_fname url_path is_sep idx u) = None"
proof -
  let ?f = "out_fname url_path is_sep idx u"
  have o: "\<not> ok (fst (download_one (images_dir st) (item idx) u ?f))"
    using assms by (simp add: download_one_ok_indep)
  show "ok_count (download_step url_path is_sep item idx u st) = ok_count st"
    using o by (simp add: download_step_unfold)
  show "failures (download_step url_path is_sep item idx u st) =
      failures st @ [(u, reason (fst (download_one Map.empty (item idx) u [])))]"
    using o download_one_reason_indep [of "images_dir st" "item idx" u ?f]
    by (simp add: download_step_unfold)
  show "images_dir (download_step url_path is_sep item idx u st) ?f = None"
    if "\<not> remove_error (item idx)"
    using o that by (simp add: download_step_unfold)
qed


lemma loop_other:
  "(\<And>i. i < length us \<Longrightarrow> n \<noteq> out_fname url_path is_sep (idx + i) (us ! i)) \<Longrightarrow>
     images_dir (download_loop url_path is_sep item idx us st) n = images_dir st n"
proof (induction us arbitrary: idx st)
  case Nil
  then show ?case by simp
next
  case (Cons u us)
  have 0: "n \<noteq> out_fname url_path is_sep idx u" using Cons.prems [of 0] by simp
  have "n \<noteq> out_fname url_path is_sep (Suc idx + i) (us ! i)" if "i < length us" for i
    using Cons.prems [of "Suc i"] that by simp
  then have "images_dir (download_loop url_path is_sep item (Suc idx) us
        (download_step url_path is_sep item idx u st)) n
      = images_dir (download_step url_path is_sep item idx u st) n"
    by (rule Cons.IH)
  then show ?case using step_other [OF 0] by simp
qed

lemma loop_file:
  assumes "i < length us"
  shows "(item_succeeds (item (idx + i)) (us ! i) \<longrightarrow>
            (\<exists>content. images_dir (download_loop url_path is_sep item idx us st)
                (out_fname url_path is_sep (idx + i) (us ! i)) = Some content
              \<and> 1024 \<le> length content))
       \<and> (\<not> item_succeeds (item (idx + i)) (us ! i) \<and> \<not> remove_error (item (idx + i)) \<longrightarrow>
            images_dir (download_loop url_path is_sep item idx us st)
                (out_fname url_path is_sep (idx + i) (us ! i)) = None)"
  using assms
proof (induction us arbitrary: idx st i)
  case Nil
  then show ?case by simp
next
  case (Cons u us)
  let ?st = "download_step url_path is_sep item idx u st"
  show ?case
  proof (cases i)
    case 0
    have "out_fname url_path is_sep idx u \<noteq> out_fname url_path is_sep (Suc idx + j) (us ! j)"
      for j using out_fname_inj [of url_path is_sep idx u "Suc idx + j" "us ! j"] by auto
    then have "images_dir (download_loop url_path is_sep item (Suc idx) us ?st)
        (out_fname url_path is_sep idx u) = images_dir ?st (out_fname url_path is_sep idx u)"
      by (intro loop_other) simp
    then show ?thesis
      using 0 step_ok(3) [of item idx u url_path is_sep st]
        step_fail(3) [of item idx u url_path is_sep st]
      by auto
  next
    case (Suc j)
    then have "j < length us" using Cons.prems by simp
    from Cons.IH [OF this, of "Suc idx" ?st] show ?thesis using Suc by simp
  qed
qed

lemma ok_items_iff:
  "(j, u) \<in> set (ok_items item idx us) \<longleftrightarrow>
     (\<exists>i<length us. j = idx + i \<and> u = us ! i \<and> item_succeeds (item j) u)"
proof (induction us arbitrary: idx)
  case Nil
  then show ?case by simp
next
  case (Cons v us)
  have "(\<exists>i<length (v # us). j = idx + i \<and> u = (v # us) ! i \<and> item_succeeds (item j) u)
      \<longleftrightarrow> (j = idx \<and> u = v \<and> item_succeeds (item j) u)
          \<or> (\<exists>i<length us. j = Suc idx + i \<and> u = us ! i \<and> item_succeeds (item j) u)"
    (is "?L \<longleftrightarrow> ?A \<or> ?B")
  proof
    assume ?L
    then obtain i where i: "i < length (v # us)" "j = idx + i" "u = (v # us) ! i"
      "item_succeeds (item j) u" by blast
    show "?A \<or> ?B"
    proof (cases i)
      case 0
      then show ?thesis using i by simp
    next
      case (Suc k)
      then have "k < length us \<and> j = Suc idx + k \<and> u = us ! k" using i by simp
      then show ?thesis using i(4) by blast
    qed
  next
    assume "?A \<or> ?B"
    then show ?L
    proof
      assume ?A
      then have "0 < length (v # us) \<and> j = idx + 0 \<and> u = (v # us) ! 0 \<and> item_succeeds (item j) u"
        by auto
      then show ?L by blast
    next
      assume ?B
      then obtain k where "k < length us" "j = Suc idx + k" "u = us ! k" "item_succeeds (item j) u"
        by blast
      then have "Suc k < length (v # us) \<and> j = idx + Suc k \<and> u = (v # us) ! Suc k
          \<and> item_succeeds (item j) u" by simp
      then show ?L by blast
    qed
  qed
  then show ?case using Cons.IH [of "Suc idx"] by auto
qed


lemma loop_failures:
  "failures (download_loop url_path is_sep item idx us st) =
     failures st @ failed_entries item idx us"
proof (induction us arbitrary: idx st)
  case Nil
  then show ?case by simp
next
  case (Cons u us)
  show ?case
    using Cons.IH [of "Suc idx" "download_step url_path is_sep item idx u st"]
      step_ok(2) [of item idx u url_path is_sep st] step_fail(2) [of item idx u url_path is_sep st]
    by (cases "item_succeeds (item idx) u") simp_all
qed

lemma failed_entries_member:
  "i < length us \<Longrightarrow> \<not> item_succeeds (item (idx + i)) (us ! i) \<Longrightarrow>
     (us ! i, reason (fst (download_one Map.empty (item (idx + i)) (us ! i) [])))
       \<in> set (failed_entries item idx us)"
proof (induction us arbitrary: idx i)
  case Nil
  then show ?case by simp
next
  case (Cons u us)
  show ?case
  proof (cases i)
    case 0
    then show ?thesis using Cons.prems by simp
  next
    case (Suc j)
    then have "j < length us" "\<not> item_succeeds (item (Suc idx + j)) (us ! j)"
      using Cons.prems by simp_all
    from Cons.IH [OF this] show ?thesis using Suc by simp
  qed
qed

lemma run_downloads_file:
  assumes "images_dir (run_downloads url_path is_sep item urls) n = Some content"
  shows "\<exists>i<length urls. n = out_fname url_path is_sep (Suc i) (urls ! i)
           \<and> ((item_succeeds (item (Suc i)) (urls ! i) \<and> 1024 \<le> length content)
                \<or> remove_error (item (Suc i)))"
proof -
  let ?init = "\<lparr>ok_count = 0, failures = [], images_dir = Map.empty\<rparr>"
  let ?st = "download_loop url_path is_sep item 1 urls ?init"
  have st: "images_dir ?st n = Some content" using assms by (simp add: run_downloads_def)
  have "\<exists>i<length urls. n = out_fname url_path is_sep (1 + i) (urls ! i)"
  proof (rule ccontr)
    assume "\<not> ?thesis"
    then have "images_dir ?st n = images_dir ?init n"
      by (intro loop_other) auto
    then show False using st by simp
  qed
  then obtain i where i: "i < length urls" and n: "n = out_fname url_path is_sep (1 + i) (urls ! i)"
    by blast
  note f = loop_file [OF i, of item 1 url_path is_sep ?init]
  show ?thesis
  proof (cases "item_succeeds (item (1 + i)) (urls ! i)")
    case True
    with f obtain c where "images_dir ?st n = Some c" "1024 \<le> length c"
      unfolding n by blast
    then have "1024 \<le> length content" using st by simp
    then show ?thesis using i n True by auto
  next
    case False
    have "remove_error (item (1 + i))"
    proof (rule ccontr)
      assume "\<not> remove_error (item (1 + i))"
      with f False have "images_dir ?st n = None" unfolding n by blast
      then show False using st by simp
    qed
    then show ?thesis using i n by auto
  qed
qed

lemma run_downloads_dom:
  assumes "\<And>i. i < length urls \<Longrightarrow> \<not> remove_error (item (Suc i))"
  shows "dom (images_dir (run_downloads url_path is_sep item urls)) =
           (\<lambda>(i, u). out_fname url_path is_sep i u) ` set (ok_items item 1 urls)"
proof (intro set_eqI iffI)
  fix n
  assume "n \<in> dom (images_dir (run_downloads url_path is_sep item urls))"
  then obtain content where "images_dir (run_downloads url_path is_sep item urls) n = Some content"
    by auto
  from run_downloads_file [OF this] obtain i where i: "i < length urls"
    and n: "n = out_fname url_path is_sep (Suc i) (urls ! i)"
    and s: "item_succeeds (item (Suc i)) (urls ! i)"
    using assms by blast
  have "(Suc i, urls ! i) \<in> set (ok_items item 1 urls)"
    using i s by (auto simp: ok_items_iff)
  then show "n \<in> (\<lambda>(i, u). out_fname url_path is_sep i u) ` set (ok_items item 1 urls)"
    using n by force
next
  fix n
  assume "n \<in> (\<lambda>(i, u). out_fname url_path is_sep i u) ` set (ok_items item 1 urls)"
  then obtain j u where ju: "(j, u) \<in> set (ok_items item 1 urls)"
    and n: "n = out_fname url_path is_sep j u" by auto
  from ju obtain i where i: "i < length urls" "j = 1 + i" "u = urls ! i"
    "item_succeeds (item j) u" by (auto simp: ok_items_iff)
  from loop_file [OF i(1), of item 1 url_path is_sep
      "\<lparr>ok_count = 0, failures = [], images_dir = Map.empty\<rparr>"] i
  show "n \<in> dom (images_dir (run_downloads url_path is_sep item urls))"
    by (auto simp: run_downloads_def n)
qed

text \<open>
  Claim C7, as the code has it. For the downloads of one run, from index 1 on an empty
  directory: a download that writes a file of fewer than 1024 bytes fails and is recorded
  in \<open>failures\<close> with the reason \<open>TooSmall\<close>, although its request succeeded and its type
  was accepted; every file in the directory after the loop is the file of a candidate,
  and it is either the file of a successful download, of at least 1024 bytes, or the file
  of a failed one whose removal raised an error, which the loop ignores; and when no
  removal raises, the directory holds exactly the files of the successful downloads.
\<close>

theorem small_files_fail_and_are_removed_unless_removal_fails:
  "(\<forall>i<length urls. \<forall>ct chunks content.
       reply (item (Suc i)) = Reply ct chunks None
       \<and> (contains ''image'' (lower (case ct of None \<Rightarrow> [] | Some c \<Rightarrow> c))
            \<or> is_probably_image_url (urls ! i))
       \<and> open_error (item (Suc i)) = None
       \<and> write_chunks (write_error (item (Suc i))) 0 chunks [] = (None, content)
       \<and> length content < 1024
       \<longrightarrow> \<not> item_succeeds (item (Suc i)) (urls ! i)
           \<and> (urls ! i, TooSmall) \<in> set (failures (run_downloads url_path is_sep item urls)))
   \<and> (\<forall>n content. images_dir (run_downloads url_path is_sep item urls) n = Some content \<longrightarrow>
         (\<exists>i<length urls. n = out_fname url_path is_sep (Suc i) (urls ! i)
            \<and> ((item_succeeds (item (Suc i)) (urls ! i) \<and> 1024 \<le> length content)
                 \<or> remove_error (item (Suc i)))))
   \<and> ((\<forall>i<length urls. \<not> remove_error (item (Suc i))) \<longrightarrow>
         dom (images_dir (run_downloads url_path is_sep item urls)) =
           (\<lambda>(i, u). out_fname url_path is_sep i u) ` set (ok_items item 1 urls))"
proof (intro conjI allI impI)
  fix i ct chunks content
  assume i: "i < length urls"
    and h: "reply (item (Suc i)) = Reply ct chunks None
       \<and> (contains ''image'' (lower (case ct of None \<Rightarrow> [] | Some c \<Rightarrow> c))
            \<or> is_probably_image_url (urls ! i))
       \<and> open_error (item (Suc i)) = None
       \<and> write_chunks (write_error (item (Suc i))) 0 chunks [] = (None, content)
       \<and> length content < 1024"
  then have d: "download_one Map.empty (item (Suc i)) (urls ! i) [] =
      (failed [] (urls ! i) TooSmall, [[] \<mapsto> content])"
    by (intro download_one_too_small) auto
  then show ns: "\<not> item_succeeds (item (Suc i)) (urls ! i)"
    by (simp add: item_succeeds_def failed_def)
  have "(urls ! i, reason (fst (download_one Map.empty (item (1 + i)) (urls ! i) [])))
      \<in> set (failed_entries item 1 urls)"
    using i ns by (intro failed_entries_member) auto
  then show "(urls ! i, TooSmall) \<in> set (failures (run_downloads url_path is_sep item urls))"
    using d by (simp add: run_downloads_def loop_failures failed_def)
next
  fix n content
  assume "images_dir (run_downloads url_path is_sep item urls) n = Some content"
  then show "\<exists>i<length urls. n = out_fname url_path is_sep (Suc i) (urls ! i)
            \<and> ((item_succeeds (item (Suc i)) (urls ! i) \<and> 1024 \<le> length content)
                 \<or> remove_error (item (Suc i)))"
    by (rule run_downloads_file)
next
  assume "\<forall>i<length urls. \<not> remove_error (item (Suc i))"
  then show "dom (images_dir (run_downloads url_path is_sep item urls)) =
           (\<lambda>(i, u). out_fname url_path is_sep i u) ` set (ok_items item 1 urls)"
    by (intro run_downloads_dom) auto
qed


theorem small_files_fail_and_are_removed_unless_removal_fails_witness:
  "(let item = (\<lambda>i. \<lparr>reply = Reply (Some ''image/jpeg'')
                           [if i = 1 then replicate 1024 (CHR ''x'') else ''tiny''] None,
                       open_error = None, write_error = None, remove_error = False\<rparr>);
        urls = [''https://x.test/a.jpg'', ''https://x.test/b.jpg''];
        st = run_downloads (drop 14) posix_sep item urls
    in (''https://x.test/b.jpg'', TooSmall) \<in> set (failures st)
       \<and> dom (images_dir st) = {''0001.jpg''})"
proof -
  define item :: "nat \<Rightarrow> item_env" where
    "item = (\<lambda>i. \<lparr>reply = Reply (Some ''image/jpeg'')
                           [if i = 1 then replicate 1024 (CHR ''x'') else ''tiny''] None,
                       open_error = None, write_error = None, remove_error = False\<rparr>)"
  define urls where "urls = [''https://x.test/a.jpg'', ''https://x.test/b.jpg'']"
  note t = small_files_fail_and_are_removed_unless_removal_fails [of urls item "drop 14" posix_sep]
  have c: "contains ''image'' (lower ''image/jpeg'')" by code_simp
  have f1: "out_fname (drop 14) posix_sep 1 ''https://x.test/a.jpg'' = ''0001.jpg''"
    by code_simp
  have ok1: "item_succeeds (item 1) ''https://x.test/a.jpg''"
    by (simp add: item_succeeds_def download_one_def item_def c)
  have ok2: "\<not> item_succeeds (item 2) ''https://x.test/b.jpg''"
    by (simp add: item_succeeds_def download_one_def item_def c failed_def)
  have oi: "ok_items item 1 urls = [(1, ''https://x.test/a.jpg'')]"
    using ok1 ok2 by (simp add: urls_def numeral_2_eq_2)
  have h: "reply (item (Suc 1)) = Reply (Some ''image/jpeg'') [''tiny''] None
       \<and> (contains ''image'' (lower (case Some ''image/jpeg'' of None \<Rightarrow> [] | Some c \<Rightarrow> c))
            \<or> is_probably_image_url (urls ! 1))
       \<and> open_error (item (Suc 1)) = None
       \<and> write_chunks (write_error (item (Suc 1))) 0 [''tiny''] [] = (None, ''tiny'')
       \<and> length ''tiny'' < 1024"
    by (simp add: item_def c)
  have len: "(1::nat) < length urls" by (simp add: urls_def)
  have "(urls ! 1, TooSmall) \<in> set (failures (run_downloads (drop 14) posix_sep item urls))"
    using t [THEN conjunct1, rule_format, OF len h] by (rule conjunct2)
  then have a: "(''https://x.test/b.jpg'', TooSmall)
      \<in> set (failures (run_downloads (drop 14) posix_sep item urls))"
    by (simp add: urls_def)
  have nr: "\<forall>i<length urls. \<not> remove_error (item (Suc i))" by (simp add: item_def)
  have "dom (images_dir (run_downloads (drop 14) posix_sep item urls)) =
           (\<lambda>(i, u). out_fname (drop 14) posix_sep i u) ` set (ok_items item 1 urls)"
    using t [THEN conjunct2, THEN conjunct2, rule_format, OF nr [rule_format]] by simp
  then have b: "dom (images_dir (run_downloads (drop 14) posix_sep item urls)) = {''0001.jpg''}"
    unfolding oi by (simp add: f1 [unfolded One_nat_def])
  show ?thesis
    using a b unfolding Let_def item_def urls_def by blast
qed

text \<open>
  Two candidates: the first download succeeds, the second writes 4 bytes and fails, and
  the removal of its file raises an error. After the loop \<open>ok_count\<close> is 1, so archiving
  begins, and the directory still holds \<open>0002.jpg\<close>, the file of the failed download.
\<close>

theorem partial_file_left_counterexample:
  "(let item = (\<lambda>i. \<lparr>reply = Reply (Some ''image/jpeg'')
                           [if i = 1 then replicate 1024 (CHR ''x'') else ''tiny''] None,
                       open_error = None, write_error = None, remove_error = True\<rparr>);
        urls = [''https://x.test/a.jpg'', ''https://x.test/b.jpg''];
        st = run_downloads (drop 14) posix_sep item urls
    in \<not> item_succeeds (item 2) ''https://x.test/b.jpg''
       \<and> out_fname (drop 14) posix_sep 2 ''https://x.test/b.jpg'' = ''0002.jpg''
       \<and> ok_count st = 1
       \<and> failures st = [(''https://x.test/b.jpg'', TooSmall)]
       \<and> images_dir st ''0002.jpg'' = Some ''tiny'')"
proof -
  have c: "contains ''image'' (lower ''image/jpeg'')" by code_simp
  have f1: "out_fname (drop 14) posix_sep 1 ''https://x.test/a.jpg'' = ''0001.jpg''"
    by code_simp
  have f2: "out_fname (drop 14) posix_sep 2 ''https://x.test/b.jpg'' = ''0002.jpg''"
    by code_simp
  have f2': "out_fname (drop 14) posix_sep (Suc (Suc 0)) ''https://x.test/b.jpg'' = ''0002.jpg''"
    using f2 by (simp add: numeral_2_eq_2)
  show ?thesis
    unfolding Let_def
    by (simp add: run_downloads_def download_step_def download_one_def item_succeeds_def
        failed_def c f1 f2 f2')
qed

section \<open>Properties of the main program and the archiver\<close>









lemma list_lt_by_index:
  "i \<noteq> j \<Longrightarrow> list_lt (KStr [] # KInt i # b) (KStr [] # KInt j # c) = Inr (i < j)"
  by simp



lemma decorate_Inr:
  "decorate xs = Inr ks \<Longrightarrow> map snd ks = xs \<and> (\<forall>kx\<in>set ks. natural_key (snd kx) = Inr (fst kx))"
proof (induction xs arbitrary: ks)
  case Nil
  then show ?case by simp
next
  case (Cons x xs)
  from Cons.prems obtain k r where "natural_key x = Inr k" "decorate xs = Inr r" "ks = (k, x) # r"
    by (auto split: sum.splits)
  then show ?case using Cons.IH [of r] by auto
qed




lemma decorate_total:
  "list_all (\<lambda>f. \<exists>k. natural_key f = Inr k) l \<Longrightarrow> \<exists>ks. decorate l = Inr ks"
  by (induction l) auto












section \<open>Keys that are computed never mix texts and integers\<close>

text \<open>
  When the key of a string is computed, texts and integers alternate in it, from a text.
  Two such keys are compared without a \<open>TypeError\<close>, and sorting strings whose keys are
  computed returns. The only error of the key, and of sorting by it, is the
  \<open>ValueError\<close> of a piece of superscript digits.
\<close>


lemma re_split_digits_shape: "pieces_shape True (re_split_digits s)"
proof (induction s rule: re_split_digits.induct)
  case (1 s)
  define pre where "pre = takeWhile (\<lambda>c. \<not> re_digit c) s"
  define rest where "rest = dropWhile (\<lambda>c. \<not> re_digit c) s"
  have pre: "list_all (\<lambda>c. \<not> re_digit c) pre"
    unfolding pre_def list_all_iff by (auto dest: set_takeWhileD)
  show ?case
  proof (cases "rest = []")
    case True
    then show ?thesis
      using pre by (subst re_split_digits.simps) (simp add: Let_def pre_def rest_def)
  next
    case False
    from False obtain c cs where rc: "rest = c # cs" by (cases rest) auto
    then have "dropWhile (\<lambda>c. \<not> re_digit c) s = c # cs" by (simp add: rest_def)
    then have c: "re_digit c" by (simp add: dropWhile_eq_Cons_conv)
    have run: "takeWhile re_digit rest \<noteq> []" "list_all re_digit (takeWhile re_digit rest)"
      using c rc unfolding list_all_iff by (auto dest: set_takeWhileD)
    have "pieces_shape True (re_split_digits (dropWhile re_digit rest))"
      using "1.IH" [OF pre_def rest_def False] .
    then show ?thesis
      using False pre run
      by (subst re_split_digits.simps) (simp add: Let_def pre_def rest_def)
  qed
qed

lemma key_of_text_piece:
  assumes "list_all (\<lambda>c. \<not> re_digit c) t" "key_of_piece t = Inr x"
  shows "\<exists>a. x = KStr a"
proof (cases "isdigit t")
  case True
  then obtain c cs where t: "t = c # cs" by (cases t) (auto simp: isdigit_def)
  then have "\<not> list_all re_digit t" using assms(1) by simp
  then have "py_int t = Inl ValueError" by (simp add: py_int_def)
  then show ?thesis using assms(2) True by (simp add: key_of_piece_def)
next
  case False
  then show ?thesis using assms(2) by (auto simp: key_of_piece_def)
qed

lemma key_of_pieces_alternates:
  "pieces_shape b ps \<Longrightarrow> key_of_pieces ps = Inr k \<Longrightarrow> alternates b k"
proof (induction ps arbitrary: b k)
  case Nil
  then show ?case by simp
next
  case (Cons t ts)
  from Cons.prems(2) obtain x xs where x: "key_of_piece t = Inr x"
    and xs: "key_of_pieces ts = Inr xs" and k: "k = x # xs"
    by (auto split: sum.splits)
  show ?case
  proof (cases b)
    case True
    then have t: "list_all (\<lambda>c. \<not> re_digit c) t" and r: "pieces_shape False ts"
      using Cons.prems(1) by simp_all
    from key_of_text_piece [OF t x] obtain a where "x = KStr a" by blast
    then show ?thesis using True k Cons.IH [OF r xs] by simp
  next
    case False
    then have d: "t \<noteq> []" "list_all re_digit t" and r: "pieces_shape True ts"
      using Cons.prems(1) by simp_all
    have "x = KInt (int (digits_value 0 t))" using key_of_digit_run [OF d] x by simp
    then show ?thesis using False k Cons.IH [OF r xs] by simp
  qed
qed

lemma natural_key_alternates: "natural_key s = Inr k \<Longrightarrow> alternates True k"
  unfolding natural_key_def using re_split_digits_shape by (rule key_of_pieces_alternates)

lemma natural_key_error: "natural_key s = Inl e \<Longrightarrow> e = ValueError"
proof -
  have "key_of_piece t = Inl e \<Longrightarrow> e = ValueError" for t
    by (auto simp: key_of_piece_def py_int_def split: if_splits sum.splits)
  then have "key_of_pieces ps = Inl e \<Longrightarrow> e = ValueError" for ps
    by (induction ps) (auto split: sum.splits)
  then show "natural_key s = Inl e \<Longrightarrow> e = ValueError" by (simp add: natural_key_def)
qed

lemma list_lt_alternates:
  "alternates b k1 \<Longrightarrow> alternates b k2 \<Longrightarrow> \<exists>r. list_lt k1 k2 = Inr r"
proof (induction k1 k2 arbitrary: b rule: list_lt.induct)
  case (4 x xs y ys)
  show ?case
  proof (cases b)
    case True
    with "4.prems" obtain s t where "x = KStr s" "y = KStr t"
      "alternates False xs" "alternates False ys"
      by (cases x; cases y) auto
    then show ?thesis using "4.IH" [of False] by auto
  next
    case False
    with "4.prems" obtain m n where "x = KInt m" "y = KInt n"
      "alternates True xs" "alternates True ys"
      by (cases x; cases y) auto
    then show ?thesis using "4.IH" [of True] by auto
  qed
next
  case 1
  show ?case by (rule exI [of _ False]) simp
next
  case (2 y ys)
  show ?case by (rule exI [of _ True]) simp
next
  case (3 x xs)
  show ?case by (rule exI [of _ False]) simp
qed

lemma insert_by_key_total:
  "alternates True (fst kx) \<Longrightarrow> list_all (\<lambda>ky. alternates True (fst ky)) done \<Longrightarrow>
     \<exists>r. insert_by_key kx done = Inr r \<and> list_all (\<lambda>ky. alternates True (fst ky)) r"
proof (induction "done")
  case Nil
  then show ?case by simp
next
  case (Cons ky rest)
  from list_lt_alternates [of True "fst kx" "fst ky"] Cons.prems
  obtain c where c: "list_lt (fst kx) (fst ky) = Inr c" by auto
  from Cons.IH Cons.prems obtain r where "insert_by_key kx rest = Inr r"
    "list_all (\<lambda>ky. alternates True (fst ky)) r" by auto
  then show ?case using c Cons.prems by (cases c) auto
qed

lemma sort_decorated_total:
  "list_all (\<lambda>ky. alternates True (fst ky)) done \<Longrightarrow>
   list_all (\<lambda>ky. alternates True (fst ky)) xs \<Longrightarrow>
     \<exists>r. sort_decorated done xs = Inr r"
proof (induction xs arbitrary: "done")
  case Nil
  then show ?case by simp
next
  case (Cons kx xs)
  from insert_by_key_total [of kx "done"] Cons.prems obtain d
    where d: "insert_by_key kx done = Inr d" "list_all (\<lambda>ky. alternates True (fst ky)) d"
    by auto
  from Cons.IH [OF d(2)] Cons.prems(2) obtain r where "sort_decorated d xs = Inr r" by auto
  then show ?case using d(1) by simp
qed

lemma sorted_natural_total:
  assumes "list_all (\<lambda>x. \<exists>k. natural_key x = Inr k) xs"
  shows "\<exists>r. sorted_natural xs = Inr r"
proof -
  from decorate_total [OF assms] obtain ks where ks: "decorate xs = Inr ks" by blast
  have "list_all (\<lambda>ky. alternates True (fst ky)) ks"
    using decorate_Inr [OF ks] by (auto simp: list_all_iff intro: natural_key_alternates)
  from sort_decorated_total [OF _ this, of "[]"] obtain r where "sort_decorated [] ks = Inr r"
    by auto
  then show ?thesis by (simp add: sorted_natural_def ks)
qed

lemma sorted_natural_never_type_error: "sorted_natural xs \<noteq> Inl TypeError"
proof (cases "list_all (\<lambda>x. \<exists>k. natural_key x = Inr k) xs")
  case True
  from sorted_natural_total [OF this] show ?thesis by auto
next
  case False
  have "decorate ys \<noteq> Inl TypeError" for ys
    by (induction ys) (auto split: sum.splits dest: natural_key_error)
  moreover have "\<exists>e. decorate xs = Inl e"
    using False by (induction xs) (auto split: sum.splits)
  ultimately show ?thesis by (auto simp: sorted_natural_def)
qed

end
